theory Spec2Isabelle
  imports Main "HOL-Library.Word" "HOL-Library.Log_Nat"
begin

section \<open>Binary floating point, as far as the kernels use it\<close>

text \<open>
  The kernels of \<^verbatim>\<open>fake_quantize_per_tensor_affine.cu\<close> compute on \<^verbatim>\<open>float\<close>
  (IEEE binary32) and \<^verbatim>\<open>double\<close> (binary64) values. A value is a finite rational,
  the negative zero, an infinity or a NaN; \<open>Finite 0\<close> is the positive zero. Every
  arithmetic operator of the source is one correctly rounded operation (round to
  nearest, ties to even), written as the exact rational result followed by \<open>rnd\<close>;
  a product and a sum are rounded one after the other.
\<close>

datatype fp = Finite rat | NegZero | PInf | NInf | NaN

record format =
  prec :: nat
  emin :: int
  emax :: int

definition binary32 :: format where
  "binary32 = \<lparr>prec = 24, emin = - 126, emax = 127\<rparr>"

definition binary64 :: format where
  "binary64 = \<lparr>prec = 53, emin = - 1022, emax = 1023\<rparr>"

text \<open>\<open>ilog2 x\<close> is the exponent of the binade of a positive \<open>x\<close>: \<open>2 ^ ilog2 x \<le> x < 2 ^ (ilog2 x + 1)\<close>.\<close>

definition ilog2 :: "rat \<Rightarrow> int" where
  "ilog2 x = (if 1 \<le> x then bitlen \<lfloor>x\<rfloor> - 1 else - bitlen (\<lceil>1 / x\<rceil> - 1))"

text \<open>The nearest integer, a tie going to the even one.\<close>

definition round_even :: "rat \<Rightarrow> int" where
  "round_even x =
     (let n = \<lfloor>x\<rfloor>; r = x - of_int n
      in if r < 1 / 2 then n else if 1 / 2 < r then n + 1 else if even n then n else n + 1)"

text \<open>The spacing of a format around \<open>x\<close>; below \<open>2 ^ emin\<close> it is that of the
  subnormal numbers.\<close>

definition ulp :: "format \<Rightarrow> rat \<Rightarrow> rat" where
  "ulp f x = 2 powi (max (ilog2 \<bar>x\<bar>) (emin f) - (int (prec f) - 1))"

text \<open>Rounding to nearest, ties to even: the magnitude is rounded to a multiple \<open>r\<close> of
  the spacing; it overflows to an infinity when \<open>r\<close> reaches \<open>2 ^ (emax + 1)\<close>, and a
  result that underflows to zero keeps the sign.\<close>

definition rnd :: "format \<Rightarrow> rat \<Rightarrow> fp" where
  "rnd f x =
     (if x = 0 then Finite 0
      else
        let r = of_int (round_even (\<bar>x\<bar> / ulp f x)) * ulp f x
        in if r = 0 then (if x < 0 then NegZero else Finite 0)
           else if emax f < ilog2 r then (if x < 0 then NInf else PInf)
           else Finite (if x < 0 then - r else r))"

definition is_zero :: "fp \<Rightarrow> bool" where
  "is_zero a = (a = Finite 0 \<or> a = NegZero)"

definition is_inf :: "fp \<Rightarrow> bool" where
  "is_inf a = (a = PInf \<or> a = NInf)"

fun val :: "fp \<Rightarrow> rat" where
  "val (Finite r) = r"
| "val _ = 0"

fun sign_bit :: "fp \<Rightarrow> bool" where
  "sign_bit (Finite r) = (r < 0)"
| "sign_bit NegZero = True"
| "sign_bit NInf = True"
| "sign_bit PInf = False"
| "sign_bit NaN = False"

definition signed_zero :: "bool \<Rightarrow> fp" where
  "signed_zero s = (if s then NegZero else Finite 0)"

definition signed_inf :: "bool \<Rightarrow> fp" where
  "signed_inf s = (if s then NInf else PInf)"

fun fneg :: "fp \<Rightarrow> fp" where
  "fneg (Finite r) = (if r = 0 then NegZero else Finite (- r))"
| "fneg NegZero = Finite 0"
| "fneg PInf = NInf"
| "fneg NInf = PInf"
| "fneg NaN = NaN"

definition fmul :: "format \<Rightarrow> fp \<Rightarrow> fp \<Rightarrow> fp" where
  "fmul f a b =
     (if a = NaN \<or> b = NaN then NaN
      else if is_inf a \<or> is_inf b then
        (if is_zero a \<or> is_zero b then NaN else signed_inf (sign_bit a \<noteq> sign_bit b))
      else if is_zero a \<or> is_zero b then signed_zero (sign_bit a \<noteq> sign_bit b)
      else rnd f (val a * val b))"

definition fadd :: "format \<Rightarrow> fp \<Rightarrow> fp \<Rightarrow> fp" where
  "fadd f a b =
     (if a = NaN \<or> b = NaN then NaN
      else if is_inf a then (if is_inf b \<and> a \<noteq> b then NaN else a)
      else if is_inf b then b
      else if val a + val b = 0 then (if a = NegZero \<and> b = NegZero then NegZero else Finite 0)
      else rnd f (val a + val b))"

definition fsub :: "format \<Rightarrow> fp \<Rightarrow> fp \<Rightarrow> fp" where
  "fsub f a b = fadd f a (fneg b)"

definition fdiv :: "format \<Rightarrow> fp \<Rightarrow> fp \<Rightarrow> fp" where
  "fdiv f a b =
     (if a = NaN \<or> b = NaN then NaN
      else if is_inf a then (if is_inf b then NaN else signed_inf (sign_bit a \<noteq> sign_bit b))
      else if is_inf b then signed_zero (sign_bit a \<noteq> sign_bit b)
      else if is_zero b then (if is_zero a then NaN else signed_inf (sign_bit a \<noteq> sign_bit b))
      else if is_zero a then signed_zero (sign_bit a \<noteq> sign_bit b)
      else rnd f (val a / val b))"

text \<open>Conversions: an integer to a format, and a value of one format to another
  (\<^verbatim>\<open>double\<close> to \<^verbatim>\<open>float\<close> rounds; \<^verbatim>\<open>float\<close> to \<^verbatim>\<open>double\<close> is exact and is the identity).\<close>

definition fp_of_int :: "format \<Rightarrow> int \<Rightarrow> fp" where
  "fp_of_int f i = rnd f (of_int i)"

fun fp_convert :: "format \<Rightarrow> fp \<Rightarrow> fp" where
  "fp_convert f (Finite r) = rnd f r"
| "fp_convert f a = a"

text \<open>Comparison \<^verbatim>\<open><=\<close>: false when an operand is a NaN, the two zeros equal.\<close>

fun fle :: "fp \<Rightarrow> fp \<Rightarrow> bool" where
  "fle NaN _ = False"
| "fle _ NaN = False"
| "fle NInf _ = True"
| "fle _ PInf = True"
| "fle PInf _ = False"
| "fle _ NInf = False"
| "fle a b = (val a \<le> val b)"

definition flt :: "fp \<Rightarrow> fp \<Rightarrow> bool" where
  "flt a b = (a \<noteq> NaN \<and> b \<noteq> NaN \<and> \<not> fle b a)"

text \<open>\<^verbatim>\<open>fmaxf\<close> and \<^verbatim>\<open>fminf\<close> return the other operand when one is a NaN.\<close>

definition fmaxf :: "fp \<Rightarrow> fp \<Rightarrow> fp" where
  "fmaxf a b = (if a = NaN then b else if b = NaN then a else if flt a b then b else a)"

definition fminf :: "fp \<Rightarrow> fp \<Rightarrow> fp" where
  "fminf a b = (if a = NaN then b else if b = NaN then a else if flt b a then b else a)"

text \<open>\<^verbatim>\<open>std::round\<close>: to the nearest integer, a tie going away from zero; the sign is kept.\<close>

definition round_away :: "rat \<Rightarrow> int" where
  "round_away x = (if 0 \<le> x then \<lfloor>x + 1 / 2\<rfloor> else - \<lfloor>- x + 1 / 2\<rfloor>)"

fun roundf :: "fp \<Rightarrow> fp" where
  "roundf (Finite r) =
     (if round_away r = 0 then signed_zero (r < 0) else Finite (of_int (round_away r)))"
| "roundf a = a"

definition float_of_bool :: "bool \<Rightarrow> fp" where
  "float_of_bool b = (if b then Finite 1 else Finite 0)"

section \<open>Tensors and errors\<close>

text \<open>
  Modelled from the spec: \<^verbatim>\<open>at::Tensor\<close> with \<^verbatim>\<open>ScalarType\<close>, \<^verbatim>\<open>AT_CHECK\<close>,
  \<^verbatim>\<open>empty_like\<close>, \<^verbatim>\<open>zeros_like\<close>, \<^verbatim>\<open>copy_\<close>, \<^verbatim>\<open>CUDA_tensor_apply2\<close> and the product of
  tensors are declared by ATen, outside this source file. A tensor is a dense array of
  32-bit floats with an element count and a device placement: here its device flag, its
  element type and its elements in the order in which the elementwise operations pair
  them. \<^verbatim>\<open>CUDA_tensor_apply2\<close> applies a function of one element to every element and
  writes the results into a second tensor; \<^verbatim>\<open>copy_\<close> copies every element; the product
  multiplies elementwise.
\<close>

datatype ScalarType = Byte | Char | Short | Int | Long | Half | Float | Double

record Tensor =
  is_cuda :: bool
  scalar_type :: ScalarType
  elems :: "fp list"

definition numel :: "Tensor \<Rightarrow> int" where
  "numel T = int (length (elems T))"

abbreviation cuda_floats :: "fp list \<Rightarrow> Tensor" where
  "cuda_floats xs \<equiv> \<lparr>is_cuda = True, scalar_type = Float, elems = xs\<rparr>"

text \<open>\<open>CheckFailed\<close> is the \<^verbatim>\<open>c10::Error\<close> of a failed \<^verbatim>\<open>AT_CHECK\<close>, \<open>InvalidArgument\<close> is
  \<^verbatim>\<open>std::invalid_argument\<close>, \<open>LengthError\<close> is \<^verbatim>\<open>std::length_error\<close>.\<close>

datatype error = CheckFailed | InvalidArgument | LengthError

section \<open>The two kernels\<close>

text \<open>
  The \<^verbatim>\<open>int64_t\<close> parameters are integers: the code compares them, converts them to
  \<^verbatim>\<open>float\<close> and shifts by \<open>num_bits\<close>, and does no arithmetic on them that could overflow.

  \<^verbatim>\<open>(1 << num_bits) - 1\<close> is computed on the 32-bit \<^verbatim>\<open>int\<close> of the literal \<^verbatim>\<open>1\<close>
  and then converted to \<^verbatim>\<open>float\<close>. The bits shifted out are lost and the subtraction
  wraps around, as on a two's complement machine. Up to 31 bits this is the value C++
  defines. C++ leaves the shift by 32 undefined: here it gives \<open>- 1\<close>, and a processor
  that takes the shift count modulo 32, as x86-64 does, gives \<open>0\<close>. Whatever the shift
  leaves, the bound is the conversion of a 32-bit \<^verbatim>\<open>int\<close>, which is never
  \<open>2 ^ 32 - 1\<close> and never above \<open>2 ^ 31\<close> (lemmas \<open>int32_not_quant_max\<close> and
  \<open>mask_any_int32\<close>).
\<close>

definition quant_max_int :: "int \<Rightarrow> int" where
  "quant_max_int num_bits = sint (push_bit (nat num_bits) (1 :: 32 word) - 1)"

definition quant_min :: fp where
  "quant_min = fp_of_int binary32 0"

definition quant_max :: "int \<Rightarrow> fp" where
  "quant_max num_bits = fp_of_int binary32 (quant_max_int num_bits)"

text \<open>\<^verbatim>\<open>float inv_scale = 1.0f / scale\<close>: a division of doubles, stored in a float.\<close>

definition inv_scale :: "fp \<Rightarrow> fp" where
  "inv_scale scale = fp_convert binary32 (fdiv binary64 (Finite 1) scale)"

text \<open>\<^verbatim>\<open>std::round(input_val * inv_scale + zero_point)\<close>, on floats.\<close>

definition quant_point :: "fp \<Rightarrow> int \<Rightarrow> fp \<Rightarrow> fp" where
  "quant_point scale zero_point input_val =
     roundf (fadd binary32 (fmul binary32 input_val (inv_scale scale))
                           (fp_of_int binary32 zero_point))"

text \<open>The device function of forward. The last product has a \<^verbatim>\<open>double\<close> operand, so it
  is a product of doubles, rounded again when it is stored in the \<^verbatim>\<open>float\<close> result.\<close>

definition forward_kernel :: "fp \<Rightarrow> int \<Rightarrow> int \<Rightarrow> fp \<Rightarrow> fp" where
  "forward_kernel scale zero_point num_bits input_val =
     fp_convert binary32
       (fmul binary64
          (fsub binary32
             (fminf (quant_max num_bits) (fmaxf quant_min (quant_point scale zero_point input_val)))
             (fp_of_int binary32 zero_point))
          scale)"

text \<open>The last steps of the device function, \<^verbatim>\<open>(q - zero_point) * scale\<close> stored in a float,
  as a function of the clamped value \<open>q\<close>.\<close>

definition dequantize :: "fp \<Rightarrow> int \<Rightarrow> fp \<Rightarrow> fp" where
  "dequantize scale zero_point q =
     fp_convert binary32 (fmul binary64 (fsub binary32 q (fp_of_int binary32 zero_point)) scale)"

definition FakeQuantizePerTensorAffineOp_forward ::
  "Tensor \<Rightarrow> fp \<Rightarrow> int \<Rightarrow> int \<Rightarrow> int \<Rightarrow> int \<Rightarrow> error + Tensor" where
  "FakeQuantizePerTensorAffineOp_forward X scale zero_point num_bits quant_delay iter =
     (if \<not> is_cuda X then Inl CheckFailed
      else if scalar_type X \<noteq> Float then Inl CheckFailed
      else if num_bits > 32 \<or> num_bits < 1 then Inl InvalidArgument
      else if zero_point < 0 then Inl InvalidArgument
      else if quant_delay < 0 then Inl InvalidArgument
      else if quant_delay \<noteq> 0 \<and> iter < 0 then Inl InvalidArgument
      else if quant_delay > 0 \<and> iter \<le> quant_delay then Inr X
      else Inr (X\<lparr>elems := map (forward_kernel scale zero_point num_bits) (elems X)\<rparr>))"

text \<open>The device function of backward, which fills the mask.\<close>

definition backward_kernel :: "fp \<Rightarrow> int \<Rightarrow> int \<Rightarrow> fp \<Rightarrow> fp" where
  "backward_kernel scale zero_point num_bits input_val =
     (let Xq = quant_point scale zero_point input_val
      in float_of_bool (fle quant_min Xq \<and> fle Xq (quant_max num_bits)))"

definition FakeQuantizePerTensorAffineOp_backward ::
  "Tensor \<Rightarrow> Tensor \<Rightarrow> fp \<Rightarrow> int \<Rightarrow> int \<Rightarrow> int \<Rightarrow> int \<Rightarrow> error + Tensor" where
  "FakeQuantizePerTensorAffineOp_backward X dY scale zero_point num_bits quant_delay iter =
     (if \<not> is_cuda X then Inl CheckFailed
      else if scalar_type X \<noteq> Float then Inl CheckFailed
      else if num_bits > 32 \<or> num_bits < 1 then Inl InvalidArgument
      else if zero_point < 0 then Inl InvalidArgument
      else if quant_delay < 0 then Inl InvalidArgument
      else if numel X \<le> 0 then Inl LengthError
      else if numel X \<noteq> numel dY then Inl InvalidArgument
      else if quant_delay \<noteq> 0 \<and> iter < 0 then Inl InvalidArgument
      else if quant_delay > 0 \<and> iter \<le> quant_delay then Inr dY
      else Inr (dY\<lparr>elems :=
             map2 (fmul binary32) (map (backward_kernel scale zero_point num_bits) (elems X))
                  (elems dY)\<rparr>))"

text \<open>The two operators under the names the specification uses.\<close>

abbreviation forward :: "Tensor \<Rightarrow> fp \<Rightarrow> int \<Rightarrow> int \<Rightarrow> int \<Rightarrow> int \<Rightarrow> error + Tensor" where
  "forward \<equiv> FakeQuantizePerTensorAffineOp_forward"

abbreviation backward ::
  "Tensor \<Rightarrow> Tensor \<Rightarrow> fp \<Rightarrow> int \<Rightarrow> int \<Rightarrow> int \<Rightarrow> int \<Rightarrow> error + Tensor" where
  "backward \<equiv> FakeQuantizePerTensorAffineOp_backward"

section \<open>Facts about rounding\<close>

text \<open>The exponent function finds the binade, and a value that fits the precision and the
  exponent range of a format is not changed by rounding to it.\<close>

lemma ilog2_ge1:
  fixes x :: rat
  assumes "1 \<le> x"
  shows "2 powi (ilog2 x) \<le> x \<and> x < 2 powi (ilog2 x + 1)"
proof -
  define N where "N = \<lfloor>x\<rfloor>"
  have N: "1 \<le> N" using assms by (simp add: N_def le_floor_iff)
  then have b: "2 ^ nat (bitlen N - 1) \<le> N" "N < 2 ^ nat (bitlen N)"
    using bitlen_bounds [of N] by auto
  have b1: "1 \<le> bitlen N" using N by (simp add: bitlen_alt_def)
  have e: "ilog2 x = bitlen N - 1" using assms by (simp add: ilog2_def N_def)
  have "(2::rat) powi (bitlen N - 1) = of_int (2 ^ nat (bitlen N - 1))"
    using b1 by (simp add: power_int_def)
  also have "\<dots> \<le> of_int N" using b(1) by (simp only: of_int_le_iff)
  also have "\<dots> \<le> x" by (simp add: N_def)
  finally have lo: "2 powi (ilog2 x) \<le> x" by (simp add: e)
  have "x < of_int (N + 1)" unfolding N_def by (metis floor_correct of_int_add of_int_1)
  also have "\<dots> \<le> of_int (2 ^ nat (bitlen N))"
    using b(2) by (simp only: of_int_le_iff)
  also have "\<dots> = (2::rat) powi (bitlen N)"
    using b1 by (simp add: power_int_def)
  finally have "x < 2 powi (ilog2 x + 1)" by (simp add: e)
  with lo show ?thesis by simp
qed

lemma ilog2_lt1:
  fixes x :: rat
  assumes "0 < x" "x < 1"
  shows "2 powi (ilog2 x) \<le> x \<and> x < 2 powi (ilog2 x + 1)"
proof -
  define M where "M = \<lceil>1 / x\<rceil> - 1"
  have y: "1 < 1 / x" using assms by simp
  then have "1 < \<lceil>1 / x\<rceil>" by (simp add: less_ceiling_iff)
  then have M: "1 \<le> M" by (simp add: M_def)
  have My: "of_int M < 1 / x" unfolding M_def
    by (metis ceiling_correct of_int_diff of_int_1)
  have yM: "1 / x \<le> of_int (M + 1)" unfolding M_def by (simp add: le_of_int_ceiling)
  have b: "2 ^ nat (bitlen M - 1) \<le> M" "M < 2 ^ nat (bitlen M)"
    using bitlen_bounds [of M] M by auto
  have b1: "1 \<le> bitlen M" using M by (simp add: bitlen_alt_def)
  have e: "ilog2 x = - bitlen M" using assms by (simp add: ilog2_def M_def)
  have "1 / x \<le> of_int (M + 1)" by (rule yM)
  also have "\<dots> \<le> of_int (2 ^ nat (bitlen M))"
    using b(2) by (simp only: of_int_le_iff)
  also have "\<dots> = (2::rat) ^ nat (bitlen M)" by simp
  finally have "1 / x \<le> (2::rat) ^ nat (bitlen M)" .
  then have "1 / 2 ^ nat (bitlen M) \<le> x"
    using assms(1) by (simp add: field_simps)
  moreover have "(2::rat) powi (- bitlen M) = 1 / 2 ^ nat (bitlen M)"
    using b1 by (simp add: power_int_def field_simps)
  ultimately have lo: "2 powi (ilog2 x) \<le> x" by (simp add: e)
  have "(2::rat) ^ nat (bitlen M - 1) = of_int (2 ^ nat (bitlen M - 1))" by simp
  also have "\<dots> \<le> of_int M" using b(1) by (simp only: of_int_le_iff)
  also have "\<dots> < 1 / x" by (rule My)
  finally have "(2::rat) ^ nat (bitlen M - 1) < 1 / x" .
  then have "x < 1 / 2 ^ nat (bitlen M - 1)"
    using assms(1) by (simp add: field_simps)
  moreover have "(2::rat) powi (- bitlen M + 1) = 1 / 2 ^ nat (bitlen M - 1)"
  proof (cases "bitlen M = 1")
    case True
    then show ?thesis by simp
  next
    case False
    with b1 have "- bitlen M + 1 < 0" by simp
    then have "(2::rat) powi (- bitlen M + 1) = inverse 2 ^ nat (bitlen M - 1)"
      by (simp add: power_int_def)
    then show ?thesis by (simp add: field_simps)
  qed
  ultimately have "x < 2 powi (ilog2 x + 1)" by (simp add: e)
  with lo show ?thesis by simp
qed

lemma ilog2_bounds:
  fixes x :: rat
  assumes "0 < x"
  shows "2 powi (ilog2 x) \<le> x \<and> x < 2 powi (ilog2 x + 1)"
  using assms ilog2_ge1 [of x] ilog2_lt1 [of x] by (cases "1 \<le> x") auto

lemma powi2_less: "(2::rat) powi a < 2 powi b \<longleftrightarrow> a < b"
proof
  assume "(2::rat) powi a < 2 powi b"
  then show "a < b"
    using power_int_increasing [of b a "2::rat"] by (cases "a < b") auto
next
  assume "a < b"
  then show "(2::rat) powi a < 2 powi b"
    by (simp add: power_int_strict_increasing)
qed

lemma powi2_le: "(2::rat) powi a \<le> 2 powi b \<longleftrightarrow> a \<le> b"
  using powi2_less [of b a] by (auto simp add: not_less [symmetric])

lemma ilog2_unique:
  fixes x :: rat
  assumes "2 powi k \<le> x" "x < 2 powi (k + 1)"
  shows "ilog2 x = k"
proof -
  have x: "0 < x" using assms(1) by (meson less_le_trans zero_less_numeral zero_less_power_int)
  note b = ilog2_bounds [OF x]
  have "(2::rat) powi k < 2 powi (ilog2 x + 1)" using assms(1) b by linarith
  then have 1: "k < ilog2 x + 1" by (simp add: powi2_less)
  have "(2::rat) powi (ilog2 x) < 2 powi (k + 1)" using assms(2) b by linarith
  then have 2: "ilog2 x < k + 1" by (simp add: powi2_less)
  from 1 2 show ?thesis by simp
qed


lemma round_even_of_int: "round_even (of_int n) = n"
  by (simp add: round_even_def)

lemma ilog2_less:
  fixes x :: rat
  assumes "0 < x" "x < 2 powi u"
  shows "ilog2 x < u"
proof -
  have "(2::rat) powi (ilog2 x) < 2 powi u"
    using ilog2_bounds [OF assms(1)] assms(2) by linarith
  then show ?thesis by (simp add: powi2_less)
qed

lemma ilog2_ge:
  fixes x :: rat
  assumes "2 powi u \<le> x"
  shows "u \<le> ilog2 x"
proof -
  have x: "0 < x"
    using assms by (meson less_le_trans zero_less_numeral zero_less_power_int)
  have "(2::rat) powi u < 2 powi (ilog2 x + 1)"
    using ilog2_bounds [OF x] assms by linarith
  then show ?thesis by (simp add: powi2_less)
qed

lemma rnd_exact:
  assumes m: "m \<noteq> 0" "\<bar>m\<bar> < 2 ^ prec f"
    and j: "emin f - (int (prec f) - 1) \<le> j"
    and top: "\<bar>of_int m * 2 powi j :: rat\<bar> < 2 powi (emax f + 1)"
  shows "rnd f (of_int m * 2 powi j) = Finite (of_int m * 2 powi j)"
proof -
  define x :: rat where "x = of_int m * 2 powi j"
  define t where "t = max (ilog2 \<bar>x\<bar>) (emin f) - (int (prec f) - 1)"
  have x0: "x \<noteq> 0" using m(1) by (simp add: x_def)
  have ax: "\<bar>x\<bar> = of_int \<bar>m\<bar> * 2 powi j"
    by (simp add: x_def abs_mult)
  have "of_int \<bar>m\<bar> < (2::rat) ^ prec f"
    using m(2) by (metis of_int_less_iff of_int_numeral of_int_power)
  then have "\<bar>x\<bar> < 2 ^ prec f * 2 powi j"
    unfolding ax by (simp add: mult_strict_right_mono)
  also have "\<dots> = 2 powi (int (prec f) + j)"
    by (simp add: power_int_add)
  finally have "ilog2 \<bar>x\<bar> < int (prec f) + j"
    using x0 by (intro ilog2_less) auto
  with j have tj: "t \<le> j" by (simp add: t_def)
  have u: "ulp f x = 2 powi t" by (simp add: ulp_def t_def)
  have "\<bar>x\<bar> / 2 powi t = of_int \<bar>m\<bar> * (2 powi j / 2 powi t)"
    by (simp add: ax)
  also have "2 powi j / 2 powi t = (2::rat) powi (j - t)"
    by (simp add: power_int_diff)
  also have "\<dots> = 2 ^ nat (j - t)"
    using tj by (simp add: power_int_def)
  finally have q: "\<bar>x\<bar> / ulp f x = of_int (\<bar>m\<bar> * 2 ^ nat (j - t))"
    by (simp add: u)
  have r: "of_int (round_even (\<bar>x\<bar> / ulp f x)) * ulp f x = \<bar>x\<bar>"
    unfolding q round_even_of_int unfolding q [symmetric] by (simp add: u)
  have "ilog2 \<bar>x\<bar> < emax f + 1"
    using x0 top by (intro ilog2_less) (auto simp add: x_def)
  then have "rnd f x = Finite (if x < 0 then - \<bar>x\<bar> else \<bar>x\<bar>)"
    using x0 by (simp add: rnd_def r Let_def)
  then show ?thesis by (simp add: x_def [symmetric])
qed

lemma rnd32_int:
  assumes "\<bar>m\<bar> \<le> 2 ^ 24"
  shows "rnd binary32 (of_int m) = Finite (of_int m)"
proof (cases "\<bar>m\<bar> = 2 ^ 24")
  case True
  then consider "m = 16777216" | "m = - 16777216" by (auto simp add: abs_if split: if_splits)
  then show ?thesis
  proof cases
    case 1
    have "rnd binary32 (of_int 1 * 2 powi 24) = Finite (of_int 1 * 2 powi 24)"
      by (intro rnd_exact) (auto simp add: binary32_def)
    then show ?thesis by (simp add: 1)
  next
    case 2
    have "rnd binary32 (of_int (- 1) * 2 powi 24) = Finite (of_int (- 1) * 2 powi 24)"
      by (intro rnd_exact) (auto simp add: binary32_def)
    then show ?thesis by (simp add: 2)
  qed
next
  case False
  show ?thesis
  proof (cases "m = 0")
    case True
    then show ?thesis by (simp add: rnd_def)
  next
    case m0: False
    have "\<bar>rat_of_int m\<bar> \<le> 2 ^ 24"
      using assms by (metis of_int_abs of_int_le_iff of_int_numeral of_int_power)
    then have "rnd binary32 (of_int m * 2 powi 0) = Finite (of_int m * 2 powi 0)"
      using m0 False assms by (intro rnd_exact) (auto simp add: binary32_def)
    then show ?thesis by simp
  qed
qed

lemma round_even_error: "\<bar>of_int (round_even y) - y\<bar> \<le> 1 / 2"
proof -
  define n where "n = \<lfloor>y\<rfloor>"
  have n: "of_int n \<le> y" "y < of_int n + 1" unfolding n_def by linarith+
  have "round_even y = n \<and> y - of_int n \<le> 1 / 2 \<or> round_even y = n + 1 \<and> 1 / 2 \<le> y - of_int n"
    by (auto simp add: round_even_def Let_def n_def [symmetric])
  then show ?thesis
  proof
    assume "round_even y = n \<and> y - of_int n \<le> 1 / 2"
    then show ?thesis using n by (simp add: abs_if)
  next
    assume "round_even y = n + 1 \<and> 1 / 2 \<le> y - of_int n"
    then show ?thesis using n by (simp add: abs_if)
  qed
qed

lemma round_even_nonneg: "0 \<le> y \<Longrightarrow> 0 \<le> round_even y"
  by (auto simp add: round_even_def Let_def)

lemma ulp_pos: "0 < ulp f x"
  by (simp add: ulp_def)

lemma rnd_error:
  assumes x: "x \<noteq> 0" "\<bar>x\<bar> < 2 powi emax f"
    and f: "emin f \<le> emax f" "1 \<le> prec f"
  shows "\<exists>r. (rnd f x = Finite r \<or> rnd f x = NegZero \<and> r = 0) \<and> \<bar>r - x\<bar> \<le> ulp f x / 2"
proof -
  define a where "a = \<bar>x\<bar>"
  define u where "u = ulp f x"
  define N where "N = round_even (a / u)"
  define r0 :: rat where "r0 = of_int N * u"
  have a: "0 < a" using x(1) by (simp add: a_def)
  have u: "0 < u" by (simp add: u_def ulp_pos)
  have "\<bar>of_int N - a / u\<bar> \<le> 1 / 2" unfolding N_def by (rule round_even_error)
  then have "\<bar>of_int N - a / u\<bar> * u \<le> 1 / 2 * u"
    using u by (intro mult_right_mono) auto
  moreover have "\<bar>of_int N - a / u\<bar> * u = \<bar>(of_int N - a / u) * u\<bar>"
    using u by (simp add: abs_mult)
  moreover have "(of_int N - a / u) * u = r0 - a"
    using u by (simp add: r0_def field_simps)
  ultimately have err: "\<bar>r0 - a\<bar> \<le> u / 2" by simp
  have N0: "0 \<le> N" unfolding N_def using a u by (intro round_even_nonneg) simp
  then have r0: "0 \<le> r0" using u by (simp add: r0_def)
  show ?thesis
  proof (cases "r0 = 0")
    case True
    then have "rnd f x = (if x < 0 then NegZero else Finite 0)"
      using x(1) by (simp add: rnd_def Let_def r0_def N_def a_def u_def)
    moreover have "\<bar>0 - x\<bar> \<le> ulp f x / 2"
      using err True by (simp add: a_def u_def)
    ultimately show ?thesis by auto
  next
    case False
    with r0 have rpos: "0 < r0" by simp
    have "ilog2 a < emax f" using a x(2) by (intro ilog2_less) (auto simp add: a_def)
    then have "max (ilog2 a) (emin f) \<le> emax f" using f(1) by simp
    then have "max (ilog2 a) (emin f) - (int (prec f) - 1) \<le> emax f"
      using f(2) by linarith
    then have "u \<le> 2 powi emax f"
      unfolding u_def ulp_def a_def [symmetric] by (simp add: powi2_le)
    moreover have "a < 2 powi emax f" using x(2) by (simp add: a_def)
    ultimately have "r0 < 2 powi emax f + 2 powi emax f"
      using err u by linarith
    also have "\<dots> = 2 powi (emax f + 1)" by (simp add: power_int_add)
    finally have "ilog2 r0 < emax f + 1" using rpos by (intro ilog2_less)
    then have "rnd f x = Finite (if x < 0 then - r0 else r0)"
      using x(1) False by (simp add: rnd_def Let_def r0_def N_def a_def u_def)
    moreover have "\<bar>(if x < 0 then - r0 else r0) - x\<bar> = \<bar>r0 - a\<bar>"
      by (simp add: a_def abs_if)
    ultimately show ?thesis using err by (auto simp add: u_def)
  qed
qed

lemma rnd_normal:
  assumes x: "2 powi emin f \<le> \<bar>x\<bar>" "\<bar>x\<bar> < 2 powi emax f"
    and f: "emin f \<le> emax f" "1 \<le> prec f"
  shows "\<exists>r. rnd f x = Finite r \<and> \<bar>r - x\<bar> \<le> \<bar>x\<bar> / 2 ^ prec f"
proof -
  have xpos: "0 < \<bar>x\<bar>"
    using x(1) by (meson less_le_trans zero_less_numeral zero_less_power_int)
  then have x0: "x \<noteq> 0" by simp
  obtain r where r: "rnd f x = Finite r \<or> rnd f x = NegZero \<and> r = 0"
      "\<bar>r - x\<bar> \<le> ulp f x / 2"
    using rnd_error [OF x0 x(2) f] by blast
  have e: "emin f \<le> ilog2 \<bar>x\<bar>" using x(1) by (rule ilog2_ge)
  then have "max (ilog2 \<bar>x\<bar>) (emin f) - (int (prec f) - 1) = ilog2 \<bar>x\<bar> - int (prec f) + 1"
    by simp
  then have "ulp f x = 2 powi (ilog2 \<bar>x\<bar> - int (prec f) + 1)"
    by (simp only: ulp_def)
  also have "\<dots> = 2 powi (ilog2 \<bar>x\<bar>) * 2 / 2 ^ prec f"
    by (simp add: power_int_add power_int_diff)
  finally have "ulp f x / 2 = 2 powi (ilog2 \<bar>x\<bar>) / 2 ^ prec f" by simp
  also have "\<dots> \<le> \<bar>x\<bar> / 2 ^ prec f"
    using ilog2_bounds [OF xpos] by (simp add: divide_right_mono)
  finally have "ulp f x / 2 \<le> \<bar>x\<bar> / 2 ^ prec f" .
  with r(2) have err: "\<bar>r - x\<bar> \<le> \<bar>x\<bar> / 2 ^ prec f" by (rule order_trans)
  have "\<bar>x\<bar> / 2 ^ prec f \<le> \<bar>x\<bar> / 2 ^ 1"
    using f(2) xpos by (intro divide_left_mono power_increasing) auto
  with err have "\<bar>r - x\<bar> \<le> \<bar>x\<bar> / 2 ^ 1" by (rule order_trans)
  then have "\<bar>r - x\<bar> \<le> \<bar>x\<bar> / 2" by simp
  then have "r \<noteq> 0" using xpos by auto
  then show ?thesis using r(1) err by auto
qed


text \<open>Rounding is monotone, and so is the dequantization for a positive scale.\<close>

lemma round_even_range: "round_even y = \<lfloor>y\<rfloor> \<or> round_even y = \<lfloor>y\<rfloor> + 1"
  by (auto simp add: round_even_def Let_def)

lemma round_even_mono:
  assumes "a \<le> b"
  shows "round_even a \<le> round_even b"
proof (cases "\<lfloor>a\<rfloor> = \<lfloor>b\<rfloor>")
  case True
  have "a - of_int \<lfloor>a\<rfloor> \<le> b - of_int \<lfloor>a\<rfloor>" using assms by simp
  then show ?thesis unfolding round_even_def Let_def True [symmetric]
    by (auto simp add: True)
next
  case False
  have "\<lfloor>a\<rfloor> \<le> \<lfloor>b\<rfloor>" using assms by (rule floor_mono)
  with False have "\<lfloor>a\<rfloor> + 1 \<le> \<lfloor>b\<rfloor>" by simp
  moreover have "round_even a \<le> \<lfloor>a\<rfloor> + 1" using round_even_range [of a] by auto
  moreover have "\<lfloor>b\<rfloor> \<le> round_even b" using round_even_range [of b] by auto
  ultimately show ?thesis by linarith
qed

lemma round_even_le_int: "y \<le> of_int n \<Longrightarrow> round_even y \<le> n"
  using round_even_mono [of y "of_int n"] by (simp add: round_even_of_int)

lemma round_even_ge_int: "of_int n \<le> y \<Longrightarrow> n \<le> round_even y"
  using round_even_mono [of "of_int n" y] by (simp add: round_even_of_int)

lemma ilog2_mono:
  assumes "0 < x" "x \<le> y"
  shows "ilog2 x \<le> ilog2 y"
proof -
  have y: "0 < y" using assms by simp
  have "(2::rat) powi (ilog2 x) < 2 powi (ilog2 y + 1)"
    using ilog2_bounds [OF assms(1)] ilog2_bounds [OF y] assms(2) by linarith
  then show ?thesis by (simp add: powi2_less)
qed

text \<open>The rounded magnitude.\<close>

lemma rounded_mono:
  assumes x: "0 < x" "x \<le> y" and p: "1 \<le> prec f"
  shows "of_int (round_even (x / ulp f x)) * ulp f x \<le> of_int (round_even (y / ulp f y)) * ulp f y"
proof -
  have y: "0 < y" using x by simp
  define ex where "ex = max (ilog2 x) (emin f)"
  define ey where "ey = max (ilog2 y) (emin f)"
  define P where "P = int (prec f) - 1"
  have ux: "ulp f x = 2 powi (ex - P)" using x(1) by (simp add: ulp_def ex_def P_def)
  have uy: "ulp f y = 2 powi (ey - P)" using y by (simp add: ulp_def ey_def P_def)
  have P0: "0 \<le> P" using p by (simp add: P_def)
  have le: "ex \<le> ey" using ilog2_mono [OF x] by (auto simp add: ex_def ey_def)
  show ?thesis
  proof (cases "ex = ey")
    case True
    then have u: "ulp f y = ulp f x" by (simp add: ux uy)
    have "x / ulp f x \<le> y / ulp f x" using x(2) ulp_pos [of f x] by (simp add: divide_right_mono)
    then have "round_even (x / ulp f x) \<le> round_even (y / ulp f x)" by (rule round_even_mono)
    then have "rat_of_int (round_even (x / ulp f x)) \<le> of_int (round_even (y / ulp f x))" by simp
    then show ?thesis unfolding u using ulp_pos [of f x] by (simp add: mult_right_mono)
  next
    case False
    with le have lt: "ex < ey" by simp
    then have eyy: "ey = ilog2 y" "ex + 1 \<le> ey" by (auto simp add: ex_def ey_def)
    have "x < 2 powi (ilog2 x + 1)" using ilog2_bounds [OF x(1)] by simp
    also have "\<dots> \<le> 2 powi (ex + 1)" by (simp only: powi2_le) (simp add: ex_def)
    finally have xtop: "x < 2 powi (ex + 1)" .
    have "x / ulp f x \<le> 2 powi (ex + 1) / 2 powi (ex - P)"
      unfolding ux using xtop by (simp add: divide_right_mono)
    also have "\<dots> = 2 powi (P + 1)" by (simp add: power_int_diff [symmetric] ac_simps)
    also have "\<dots> = of_int (2 ^ nat (P + 1))" using P0 by (simp add: power_int_def)
    finally have "round_even (x / ulp f x) \<le> 2 ^ nat (P + 1)" by (rule round_even_le_int)
    then have "rat_of_int (round_even (x / ulp f x)) \<le> of_int (2 ^ nat (P + 1))"
      by (simp only: of_int_le_iff)
    then have "of_int (round_even (x / ulp f x)) * ulp f x \<le> of_int (2 ^ nat (P + 1)) * ulp f x"
      using ulp_pos [of f x] by (simp add: mult_right_mono)
    also have "of_int (2 ^ nat (P + 1)) * ulp f x = 2 powi (P + 1) * 2 powi (ex - P)"
      using P0 by (simp add: ux power_int_def)
    also have "\<dots> = 2 powi (ex + 1)" by (simp add: power_int_add [symmetric] ac_simps)
    also have "\<dots> \<le> 2 powi ey" using eyy(2) by (simp only: powi2_le)
    finally have left: "of_int (round_even (x / ulp f x)) * ulp f x \<le> 2 powi ey" .
    have ylow: "2 powi ey \<le> y" using ilog2_bounds [OF y] by (simp add: eyy(1))
    have "2 powi ey / 2 powi (ey - P) \<le> y / ulp f y"
      unfolding uy using ylow by (simp add: divide_right_mono)
    moreover have "(2::rat) powi ey / 2 powi (ey - P) = 2 powi P" by (simp add: power_int_diff [symmetric] ac_simps)
    moreover have "(2::rat) powi P = of_int (2 ^ nat P)" using P0 by (simp add: power_int_def)
    ultimately have "of_int (2 ^ nat P) \<le> y / ulp f y" by simp
    then have "2 ^ nat P \<le> round_even (y / ulp f y)" by (rule round_even_ge_int)
    then have "rat_of_int (2 ^ nat P) \<le> of_int (round_even (y / ulp f y))"
      by (simp only: of_int_le_iff)
    then have "of_int (2 ^ nat P) * ulp f y \<le> of_int (round_even (y / ulp f y)) * ulp f y"
      using ulp_pos [of f y] by (simp add: mult_right_mono)
    moreover have "of_int (2 ^ nat P) * ulp f y = 2 powi P * 2 powi (ey - P)"
      using P0 by (simp add: uy power_int_def)
    moreover have "(2::rat) powi P * 2 powi (ey - P) = 2 powi ey" by (simp add: power_int_add [symmetric] ac_simps)
    ultimately have "2 powi ey \<le> of_int (round_even (y / ulp f y)) * ulp f y" by simp
    with left show ?thesis by (rule order_trans)
  qed
qed

lemma rnd_pos:
  assumes "0 < x"
  shows "rnd f x =
    (if of_int (round_even (x / ulp f x)) * ulp f x = 0 then Finite 0
     else if emax f < ilog2 (of_int (round_even (x / ulp f x)) * ulp f x) then PInf
     else Finite (of_int (round_even (x / ulp f x)) * ulp f x))"
  using assms by (simp add: rnd_def Let_def)

lemma ulp_minus: "ulp f (- x) = ulp f x"
  by (simp add: ulp_def)

lemma rnd_neg:
  assumes "x < 0"
  shows "rnd f x =
    (if of_int (round_even (- x / ulp f (- x))) * ulp f (- x) = 0 then NegZero
     else if emax f < ilog2 (of_int (round_even (- x / ulp f (- x))) * ulp f (- x)) then NInf
     else Finite (- (of_int (round_even (- x / ulp f (- x))) * ulp f (- x))))"
  using assms by (simp add: rnd_def Let_def ulp_minus)

lemma rounded_nonneg:
  assumes "0 < x"
  shows "0 \<le> of_int (round_even (x / ulp f x)) * ulp f x"
proof -
  have "0 \<le> round_even (x / ulp f x)"
    using assms ulp_pos [of f x] by (intro round_even_nonneg) simp
  then show ?thesis using ulp_pos [of f x] by simp
qed

lemma rnd_not_NaN [simp]: "rnd f x \<noteq> NaN"
  by (simp add: rnd_def Let_def)

lemma rnd_nonneg:
  assumes "0 \<le> x"
  shows "fle (Finite 0) (rnd f x)"
proof (cases "x = 0")
  case True
  then show ?thesis by (simp add: rnd_def)
next
  case False
  with assms have x: "0 < x" by simp
  show ?thesis using rounded_nonneg [OF x, of f] by (simp add: rnd_pos [OF x])
qed

lemma rnd_nonpos:
  assumes "x \<le> 0"
  shows "fle (rnd f x) (Finite 0)"
proof (cases "x = 0")
  case True
  then show ?thesis by (simp add: rnd_def)
next
  case False
  with assms have x: "x < 0" by simp
  then have "0 < - x" by simp
  from rounded_nonneg [OF this, of f] show ?thesis by (simp add: rnd_neg [OF x])
qed

lemma fle_PInf: "a \<noteq> NaN \<Longrightarrow> fle a PInf"
  by (cases a) auto

lemma fle_NInf: "a \<noteq> NaN \<Longrightarrow> fle NInf a"
  by (cases a) auto

lemma rnd_mono_pos:
  assumes x: "0 < x" "x \<le> y" and p: "1 \<le> prec f"
  shows "fle (rnd f x) (rnd f y)"
proof -
  have y: "0 < y" using x by simp
  define rx :: rat where "rx = of_int (round_even (x / ulp f x)) * ulp f x"
  define ry :: rat where "ry = of_int (round_even (y / ulp f y)) * ulp f y"
  have le: "rx \<le> ry" unfolding rx_def ry_def using x p by (rule rounded_mono)
  have rx0: "0 \<le> rx" unfolding rx_def using x(1) by (rule rounded_nonneg)
  have X: "rnd f x = (if rx = 0 then Finite 0 else if emax f < ilog2 rx then PInf else Finite rx)"
    unfolding rx_def by (rule rnd_pos [OF x(1)])
  have Y: "rnd f y = (if ry = 0 then Finite 0 else if emax f < ilog2 ry then PInf else Finite ry)"
    unfolding ry_def by (rule rnd_pos [OF y])
  show ?thesis
  proof (cases "ry = 0")
    case True
    with le rx0 have "rx = 0" by simp
    with True show ?thesis by (simp add: X Y)
  next
    case ry: False
    show ?thesis
    proof (cases "emax f < ilog2 ry")
      case True
      with ry have "rnd f y = PInf" by (simp add: Y)
      then show ?thesis by (simp add: fle_PInf)
    next
      case False
      with ry have Yf: "rnd f y = Finite ry" by (simp add: Y)
      show ?thesis
      proof (cases "rx = 0")
        case True
        then show ?thesis using le by (simp add: X Yf)
      next
        case rx: False
        then have "ilog2 rx \<le> ilog2 ry" using rx0 le by (intro ilog2_mono) auto
        with False rx have "rnd f x = Finite rx" by (simp add: X)
        then show ?thesis using le by (simp add: Yf)
      qed
    qed
  qed
qed

lemma rnd_mono_neg:
  assumes x: "x \<le> y" "y < 0" and p: "1 \<le> prec f"
  shows "fle (rnd f x) (rnd f y)"
proof -
  have x0: "x < 0" using x by simp
  define rx :: rat where "rx = of_int (round_even (- x / ulp f (- x))) * ulp f (- x)"
  define ry :: rat where "ry = of_int (round_even (- y / ulp f (- y))) * ulp f (- y)"
  have le: "ry \<le> rx" unfolding rx_def ry_def using x p by (intro rounded_mono) auto
  have ry0: "0 \<le> ry" unfolding ry_def using x(2) by (intro rounded_nonneg) simp
  have X: "rnd f x = (if rx = 0 then NegZero else if emax f < ilog2 rx then NInf else Finite (- rx))"
    unfolding rx_def by (rule rnd_neg [OF x0])
  have Y: "rnd f y = (if ry = 0 then NegZero else if emax f < ilog2 ry then NInf else Finite (- ry))"
    unfolding ry_def by (rule rnd_neg [OF x(2)])
  show ?thesis
  proof (cases "rx = 0")
    case True
    with le ry0 have "ry = 0" by simp
    with True show ?thesis by (simp add: X Y)
  next
    case rx: False
    show ?thesis
    proof (cases "emax f < ilog2 rx")
      case True
      with rx have "rnd f x = NInf" by (simp add: X)
      then show ?thesis by (simp add: fle_NInf)
    next
      case False
      with rx have Xf: "rnd f x = Finite (- rx)" by (simp add: X)
      show ?thesis
      proof (cases "ry = 0")
        case True
        then show ?thesis using le ry0 by (simp add: Xf Y)
      next
        case ry: False
        then have "ilog2 ry \<le> ilog2 rx" using ry0 le by (intro ilog2_mono) auto
        with False ry have "rnd f y = Finite (- ry)" by (simp add: Y)
        then show ?thesis using le by (simp add: Xf)
      qed
    qed
  qed
qed

lemma fle_via_zero:
  assumes "fle a (Finite 0)" "fle (Finite 0) b"
  shows "fle a b"
proof (cases a)
  case (Finite r)
  then show ?thesis using assms by (cases b) auto
next
  case NegZero
  then show ?thesis using assms by (cases b) auto
next
  case PInf
  then show ?thesis using assms by simp
next
  case NInf
  then show ?thesis using assms by (cases b) auto
next
  case NaN
  then show ?thesis using assms by simp
qed

lemma rnd_mono:
  assumes "x \<le> y" "1 \<le> prec f"
  shows "fle (rnd f x) (rnd f y)"
proof -
  consider "0 < x" | "y < 0" | "x \<le> 0" "0 \<le> y" by linarith
  then show ?thesis
  proof cases
    case 1
    then show ?thesis using assms by (intro rnd_mono_pos)
  next
    case 2
    then show ?thesis using assms by (intro rnd_mono_neg)
  next
    case 3
    then show ?thesis by (rule fle_via_zero [OF rnd_nonpos rnd_nonneg])
  qed
qed

text \<open>Up to 31 bits the \<^verbatim>\<open>int\<close> expression is \<open>2 ^ num_bits - 1\<close>, and up to 24 bits
  its float is the same number.\<close>

lemma quant_max_int_eq:
  assumes "1 \<le> n" "n \<le> 31"
  shows "quant_max_int n = 2 ^ nat n - 1"
proof -
  define k where "k = nat n"
  have k: "k \<le> 31" using assms by (simp add: k_def)
  have "(2::int) ^ k \<le> 2 ^ 31" using k by (intro power_increasing) auto
  moreover have "(0::int) < 2 ^ k" by simp
  ultimately have b: "- (2 ^ 31) \<le> (2::int) ^ k - 1" "(2::int) ^ k - 1 < 2 ^ 31" by linarith+
  have "(push_bit k 1 - 1 :: 32 word) = word_of_int (2 ^ k - 1)" by simp
  then have "sint (push_bit k 1 - 1 :: 32 word) = signed_take_bit 31 (2 ^ k - 1)"
    by (simp only: sint_sbintrunc') simp
  also have "\<dots> = 2 ^ k - 1" using b by (rule signed_take_bit_int_eq_self)
  finally show ?thesis by (simp add: quant_max_int_def k_def)
qed

lemma quant_max_small:
  assumes "1 \<le> n" "n \<le> 24"
  shows "quant_max n = Finite (2 ^ nat n - 1)"
proof -
  have "(2::int) ^ nat n \<le> 2 ^ 24" using assms by (intro power_increasing) auto
  moreover have "(0::int) < 2 ^ nat n" by simp
  ultimately have "\<bar>(2::int) ^ nat n - 1\<bar> \<le> 2 ^ 24" by linarith
  then have "rnd binary32 (of_int (2 ^ nat n - 1)) = Finite (of_int (2 ^ nat n - 1))"
    by (rule rnd32_int)
  then show ?thesis using assms by (simp add: quant_max_def fp_of_int_def quant_max_int_eq)
qed

section \<open>Validation and the delay window\<close>

lemma forward_active:
  assumes "is_cuda X" "scalar_type X = Float" "1 \<le> num_bits" "num_bits \<le> 32"
    and "0 \<le> zero_point" "0 \<le> quant_delay" "quant_delay = 0 \<or> quant_delay < iter"
  shows "forward X scale zero_point num_bits quant_delay iter =
     Inr (X\<lparr>elems := map (forward_kernel scale zero_point num_bits) (elems X)\<rparr>)"
  using assms by (auto simp add: FakeQuantizePerTensorAffineOp_forward_def)

lemma backward_active:
  assumes "is_cuda X" "scalar_type X = Float" "1 \<le> num_bits" "num_bits \<le> 32"
    and "0 \<le> zero_point" "0 \<le> quant_delay" "quant_delay = 0 \<or> quant_delay < iter"
    and "0 < numel X" "numel X = numel dY"
  shows "backward X dY scale zero_point num_bits quant_delay iter =
     Inr (dY\<lparr>elems :=
       map2 (fmul binary32) (map (backward_kernel scale zero_point num_bits) (elems X))
         (elems dY)\<rparr>)"
  using assms by (auto simp add: FakeQuantizePerTensorAffineOp_backward_def)

text \<open>
  Claim C4. In a valid call with \<open>quant_delay > 0\<close> and \<open>iter \<le> quant_delay\<close>, forward
  returns X itself and backward returns dY itself. The boundary is inclusive: with
  \<open>quant_delay = 5\<close>, \<open>iter = 5\<close> is still a copy and \<open>iter = 6\<close> runs the kernel on
  every element.
\<close>

theorem delay_passthrough:
  assumes "is_cuda X" "scalar_type X = Float" "1 \<le> num_bits" "num_bits \<le> 32"
    and "0 \<le> zero_point"
  shows "(0 < quant_delay \<and> 0 \<le> iter \<and> iter \<le> quant_delay \<longrightarrow>
            forward X scale zero_point num_bits quant_delay iter = Inr X \<and>
            (0 < numel X \<and> numel X = numel dY \<longrightarrow>
               backward X dY scale zero_point num_bits quant_delay iter = Inr dY)) \<and>
         forward X scale zero_point num_bits 5 5 = Inr X \<and>
         forward X scale zero_point num_bits 5 6 =
           Inr (X\<lparr>elems := map (forward_kernel scale zero_point num_bits) (elems X)\<rparr>) \<and>
         (0 < numel X \<and> numel X = numel dY \<longrightarrow>
            backward X dY scale zero_point num_bits 5 5 = Inr dY \<and>
            backward X dY scale zero_point num_bits 5 6 =
              Inr (dY\<lparr>elems :=
                map2 (fmul binary32) (map (backward_kernel scale zero_point num_bits) (elems X))
                  (elems dY)\<rparr>))"
  using assms by (auto simp add: FakeQuantizePerTensorAffineOp_forward_def FakeQuantizePerTensorAffineOp_backward_def)

lemma delay_example:
  "forward_kernel (Finite 1) 0 8 (Finite (3 / 2)) = Finite 2"
  "backward_kernel (Finite 1) 0 8 (Finite (3 / 2)) = Finite 1"
  "fmul binary32 (Finite 1) (Finite 2) = Finite 2"
  by code_simp+

theorem delay_passthrough_witness:
  "forward (cuda_floats [Finite (3 / 2)]) (Finite 1) 0 8 5 3 = Inr (cuda_floats [Finite (3 / 2)]) \<and>
   backward (cuda_floats [Finite (3 / 2)]) (cuda_floats [Finite 2]) (Finite 1) 0 8 5 3 =
     Inr (cuda_floats [Finite 2]) \<and>
   forward (cuda_floats [Finite (3 / 2)]) (Finite 1) 0 8 5 5 = Inr (cuda_floats [Finite (3 / 2)]) \<and>
   forward (cuda_floats [Finite (3 / 2)]) (Finite 1) 0 8 5 6 = Inr (cuda_floats [Finite 2]) \<and>
   backward (cuda_floats [Finite (3 / 2)]) (cuda_floats [Finite 2]) (Finite 1) 0 8 5 5 =
     Inr (cuda_floats [Finite 2]) \<and>
   backward (cuda_floats [Finite (3 / 2)]) (cuda_floats [Finite 2]) (Finite 1) 0 8 5 6 =
     Inr (cuda_floats [Finite 2])"
  using delay_passthrough [of "cuda_floats [Finite (3 / 2)]" 8 0 5 3 "Finite 1"
      "cuda_floats [Finite 2]"]
  by (simp add: numel_def delay_example)

text \<open>
  Claim C10. With \<open>quant_delay = 0\<close> the kernels run on every element whatever \<open>iter\<close>
  is, negative values included: the copy needs \<open>quant_delay > 0\<close>, and \<open>iter\<close> is only
  checked when \<open>quant_delay\<close> is not zero (then a negative \<open>iter\<close> is an error).
\<close>

theorem zero_delay_active:
  assumes "is_cuda X" "scalar_type X = Float" "1 \<le> num_bits" "num_bits \<le> 32"
    and "0 \<le> zero_point"
  shows "forward X scale zero_point num_bits 0 iter =
           Inr (X\<lparr>elems := map (forward_kernel scale zero_point num_bits) (elems X)\<rparr>) \<and>
         (0 < numel X \<and> numel X = numel dY \<longrightarrow>
            backward X dY scale zero_point num_bits 0 iter =
              Inr (dY\<lparr>elems :=
                map2 (fmul binary32) (map (backward_kernel scale zero_point num_bits) (elems X))
                  (elems dY)\<rparr>)) \<and>
         (0 < quant_delay \<and> iter < 0 \<longrightarrow>
            forward X scale zero_point num_bits quant_delay iter = Inl InvalidArgument \<and>
            (0 < numel X \<and> numel X = numel dY \<longrightarrow>
               backward X dY scale zero_point num_bits quant_delay iter = Inl InvalidArgument))"
  using assms by (auto simp add: FakeQuantizePerTensorAffineOp_forward_def FakeQuantizePerTensorAffineOp_backward_def)

theorem zero_delay_active_witness:
  "forward (cuda_floats [Finite (3 / 2)]) (Finite 1) 0 8 0 (- 7) = Inr (cuda_floats [Finite 2]) \<and>
   backward (cuda_floats [Finite (3 / 2)]) (cuda_floats [Finite 2]) (Finite 1) 0 8 0 (- 7) =
     Inr (cuda_floats [Finite 2]) \<and>
   forward (cuda_floats [Finite (3 / 2)]) (Finite 1) 0 8 0 0 = Inr (cuda_floats [Finite 2]) \<and>
   forward (cuda_floats [Finite (3 / 2)]) (Finite 1) 0 8 5 (- 7) = Inl InvalidArgument \<and>
   backward (cuda_floats [Finite (3 / 2)]) (cuda_floats [Finite 2]) (Finite 1) 0 8 5 (- 7) =
     Inl InvalidArgument"
  using zero_delay_active [of "cuda_floats [Finite (3 / 2)]" 8 0 "Finite 1" "- 7"
      "cuda_floats [Finite 2]" 5]
    zero_delay_active [of "cuda_floats [Finite (3 / 2)]" 8 0 "Finite 1" 0
      "cuda_floats [Finite 2]" 5]
  by (simp add: numel_def delay_example)




text \<open>
  Claim C6, as amended. For a CUDA float tensor X and valid \<open>num_bits\<close>, \<open>zero_point\<close> and
  \<open>quant_delay\<close>, backward fails with \<open>LengthError\<close> when X has no element, and with
  \<open>InvalidArgument\<close> when X is not empty and its element count differs from that of dY;
  both are results without a tensor. Forward never fails with \<open>LengthError\<close>: on an
  empty X with valid parameters it returns X.
\<close>

theorem backward_size_checks:
  assumes "is_cuda X" "scalar_type X = Float" "1 \<le> num_bits" "num_bits \<le> 32"
    and "0 \<le> zero_point" "0 \<le> quant_delay"
  shows "(numel X = 0 \<longrightarrow>
            backward X dY scale zero_point num_bits quant_delay iter = Inl LengthError) \<and>
         (0 < numel X \<and> numel X \<noteq> numel dY \<longrightarrow>
            backward X dY scale zero_point num_bits quant_delay iter = Inl InvalidArgument) \<and>
         forward X' scale' zero_point' num_bits' quant_delay' iter' \<noteq> Inl LengthError \<and>
         (numel X = 0 \<and> (quant_delay = 0 \<or> 0 \<le> iter) \<longrightarrow>
            forward X scale zero_point num_bits quant_delay iter = Inr X)"
  using assms by (auto simp add: FakeQuantizePerTensorAffineOp_forward_def FakeQuantizePerTensorAffineOp_backward_def numel_def)

theorem backward_size_checks_witness:
  "backward (cuda_floats []) (cuda_floats []) (Finite 1) 0 8 0 0 = Inl LengthError \<and>
   backward (cuda_floats [Finite 1]) (cuda_floats [Finite 1, Finite 2]) (Finite 1) 0 8 0 0 =
     Inl InvalidArgument \<and>
   forward (cuda_floats []) (Finite 1) 0 8 0 0 = Inr (cuda_floats [])"
  using backward_size_checks [of "cuda_floats []" 8 0 0 "cuda_floats []" "Finite 1" 0]
    backward_size_checks [of "cuda_floats [Finite 1]" 8 0 0 "cuda_floats [Finite 1, Finite 2]"
      "Finite 1" 0]
  by (simp add: numel_def)

text \<open>
  Claim C6 as stated fails where its two cases overlap: for an empty X and a dY of one
  element the element counts differ, and backward raises \<open>LengthError\<close>, not
  \<open>InvalidArgument\<close>.
\<close>

theorem backward_size_checks_counterexample:
  "backward (cuda_floats []) (cuda_floats [Finite 1]) (Finite 1) 0 8 0 0 = Inl LengthError"
  by (simp add: FakeQuantizePerTensorAffineOp_backward_def numel_def)

section \<open>The quantization path\<close>

lemma quant_min_eq: "quant_min = Finite 0"
  by (simp add: quant_min_def fp_of_int_def rnd_def)

text \<open>Up to 24 bits the gradient is \<open>mask * dY\<close>, element by element, where the mask is
  1 when the rounded quantization point lies in \<open>[0, 2 ^ num_bits - 1]\<close> and 0 otherwise,
  in float arithmetic.\<close>

lemma backward_formula:
  assumes "is_cuda X" "scalar_type X = Float" "1 \<le> num_bits" "num_bits \<le> 24"
    and "0 \<le> zero_point" "0 \<le> quant_delay" "quant_delay = 0 \<or> quant_delay < iter"
    and "0 < numel X" "numel X = numel dY"
  shows "backward X dY scale zero_point num_bits quant_delay iter =
     Inr (dY\<lparr>elems :=
       map2 (fmul binary32)
         (map (\<lambda>x. if fle (Finite 0)
                        (roundf (fadd binary32 (fmul binary32 x (inv_scale scale))
                           (fp_of_int binary32 zero_point))) \<and>
                      fle (roundf (fadd binary32 (fmul binary32 x (inv_scale scale))
                           (fp_of_int binary32 zero_point)))
                        (Finite (2 ^ nat num_bits - 1))
                   then Finite 1 else Finite 0)
            (elems X))
         (elems dY)\<rparr>)"
proof -
  have "quant_max num_bits = Finite (2 ^ nat num_bits - 1)"
    using quant_max_small [of num_bits] assms(3,4) by simp
  then have "backward_kernel scale zero_point num_bits =
      (\<lambda>x. if fle (Finite 0)
                        (roundf (fadd binary32 (fmul binary32 x (inv_scale scale))
                           (fp_of_int binary32 zero_point))) \<and>
                      fle (roundf (fadd binary32 (fmul binary32 x (inv_scale scale))
                           (fp_of_int binary32 zero_point)))
                        (Finite (2 ^ nat num_bits - 1))
                   then Finite 1 else Finite 0)"
    by (simp add: backward_kernel_def quant_point_def float_of_bool_def quant_min_eq Let_def
        fun_eq_iff)
  moreover have "backward X dY scale zero_point num_bits quant_delay iter =
      Inr (dY\<lparr>elems :=
        map2 (fmul binary32) (map (backward_kernel scale zero_point num_bits) (elems X))
          (elems dY)\<rparr>)"
    using assms by (intro backward_active) auto
  ultimately show ?thesis by simp
qed

lemma backward_example:
  "map (backward_kernel (Finite 1) 128 8) [Finite (- 1000), Finite 0, Finite 1000] =
     [Finite 0, Finite 1, Finite 0] \<and>
   backward (cuda_floats [Finite (- 1000), Finite 0, Finite 1000])
     (cuda_floats [Finite 2, Finite 3, Finite 4]) (Finite 1) 128 8 0 0 =
   Inr (cuda_floats [Finite 0, Finite 3, Finite 0])"
  by code_simp

text \<open>
  Claim C9. No value of \<open>scale\<close> makes forward or backward fail: whether a call fails
  does not depend on \<open>scale\<close>, and a call whose other parameters are valid returns a
  tensor for every \<open>scale\<close>, zero, negative, infinite and NaN included. The division
  \<open>1 / scale\<close> is carried out: it is \<open>+\<infinity>\<close> for \<open>scale = 0\<close>.
\<close>

theorem scale_not_validated:
  assumes "is_cuda X" "scalar_type X = Float" "1 \<le> num_bits" "num_bits \<le> 32"
    and "0 \<le> zero_point" "0 \<le> quant_delay" "quant_delay = 0 \<or> 0 \<le> iter"
  shows "forward X scale zero_point num_bits quant_delay iter =
           Inr (if 0 < quant_delay \<and> iter \<le> quant_delay then X
                else X\<lparr>elems := map (forward_kernel scale zero_point num_bits) (elems X)\<rparr>) \<and>
         (0 < numel X \<and> numel X = numel dY \<longrightarrow>
            backward X dY scale zero_point num_bits quant_delay iter =
              Inr (if 0 < quant_delay \<and> iter \<le> quant_delay then dY
                   else dY\<lparr>elems :=
                     map2 (fmul binary32)
                       (map (backward_kernel scale zero_point num_bits) (elems X)) (elems dY)\<rparr>)) \<and>
         inv_scale (Finite 0) = PInf \<and> inv_scale NegZero = NInf \<and>
         inv_scale (Finite (- 1)) = Finite (- 1) \<and>
         (forward X' scale zero_point' num_bits' quant_delay' iter' = Inl e) =
           (forward X' scale' zero_point' num_bits' quant_delay' iter' = Inl e) \<and>
         (backward X' dY' scale zero_point' num_bits' quant_delay' iter' = Inl e) =
           (backward X' dY' scale' zero_point' num_bits' quant_delay' iter' = Inl e)"
proof -
  have inv: "inv_scale (Finite 0) = PInf" "inv_scale NegZero = NInf"
    "inv_scale (Finite (- 1)) = Finite (- 1)"
    by code_simp+
  have f: "forward X scale zero_point num_bits quant_delay iter =
           Inr (if 0 < quant_delay \<and> iter \<le> quant_delay then X
                else X\<lparr>elems := map (forward_kernel scale zero_point num_bits) (elems X)\<rparr>)"
    using assms by (auto simp add: FakeQuantizePerTensorAffineOp_forward_def)
  have b: "0 < numel X \<and> numel X = numel dY \<longrightarrow>
            backward X dY scale zero_point num_bits quant_delay iter =
              Inr (if 0 < quant_delay \<and> iter \<le> quant_delay then dY
                   else dY\<lparr>elems :=
                     map2 (fmul binary32)
                       (map (backward_kernel scale zero_point num_bits) (elems X)) (elems dY)\<rparr>)"
    using assms by (auto simp add: FakeQuantizePerTensorAffineOp_backward_def)
  have fe: "(forward X' scale zero_point' num_bits' quant_delay' iter' = Inl e) =
           (forward X' scale' zero_point' num_bits' quant_delay' iter' = Inl e)"
    by (simp add: FakeQuantizePerTensorAffineOp_forward_def)
  have be: "(backward X' dY' scale zero_point' num_bits' quant_delay' iter' = Inl e) =
           (backward X' dY' scale' zero_point' num_bits' quant_delay' iter' = Inl e)"
    by (simp add: FakeQuantizePerTensorAffineOp_backward_def)
  show ?thesis using inv f b fe be by (intro conjI)
qed

lemma scale_examples:
  "map (forward_kernel (Finite 0) 0 8) [Finite 1, Finite 0] = [Finite 0, Finite 0]"
  "map (forward_kernel (Finite (- 1)) 0 8) [Finite (- 3), Finite 2] = [Finite (- 3), NegZero]"
  "map2 (fmul binary32) (map (backward_kernel (Finite 0) 0 8) [Finite 1, Finite 0])
     [Finite 5, Finite 6] = [Finite 0, Finite 0]"
  by code_simp+

theorem scale_not_validated_witness:
  "forward (cuda_floats [Finite 1, Finite 0]) (Finite 0) 0 8 0 0 =
     Inr (cuda_floats [Finite 0, Finite 0]) \<and>
   forward (cuda_floats [Finite (- 3), Finite 2]) (Finite (- 1)) 0 8 0 0 =
     Inr (cuda_floats [Finite (- 3), NegZero]) \<and>
   backward (cuda_floats [Finite 1, Finite 0]) (cuda_floats [Finite 5, Finite 6]) (Finite 0) 0 8 0 0 =
     Inr (cuda_floats [Finite 0, Finite 0])"
proof -
  have 1: "forward (cuda_floats [Finite 1, Finite 0]) (Finite 0) 0 8 0 0 =
      Inr (cuda_floats [Finite 0, Finite 0])"
    and 2: "backward (cuda_floats [Finite 1, Finite 0]) (cuda_floats [Finite 5, Finite 6])
      (Finite 0) 0 8 0 0 = Inr (cuda_floats [Finite 0, Finite 0])"
    using scale_not_validated [of "cuda_floats [Finite 1, Finite 0]" 8 0 0 0 "Finite 0"
      "cuda_floats [Finite 5, Finite 6]"]
    by (simp_all add: numel_def scale_examples [simplified])
  have 3: "forward (cuda_floats [Finite (- 3), Finite 2]) (Finite (- 1)) 0 8 0 0 =
      Inr (cuda_floats [Finite (- 3), NegZero])"
    using scale_not_validated [of "cuda_floats [Finite (- 3), Finite 2]" 8 0 0 0 "Finite (- 1)"]
    by (simp add: numel_def scale_examples [simplified])
  from 1 2 3 show ?thesis by simp
qed

section \<open>The clamp bound\<close>

text \<open>Whatever 32-bit \<^verbatim>\<open>int\<close> the expression \<^verbatim>\<open>(1 << 32) - 1\<close> yields, its float is
  not \<open>2 ^ 32 - 1\<close>.\<close>

lemma int32_float_below:
  assumes "\<bar>i\<bar> \<le> 2 ^ 31"
  shows "fp_of_int binary32 i \<noteq> Finite (2 ^ 32 - 1)"
proof (cases "i = 0")
  case True
  then show ?thesis by (simp add: fp_of_int_def rnd_def)
next
  case False
  define x :: rat where "x = of_int i"
  have ax: "\<bar>x\<bar> \<le> 2 ^ 31"
    unfolding x_def using assms by (metis of_int_abs of_int_le_iff of_int_numeral of_int_power)
  have x0: "x \<noteq> 0" using False by (simp add: x_def)
  have "\<bar>x\<bar> < 2 powi 32" using ax by simp
  then have e: "ilog2 \<bar>x\<bar> < 32" using x0 by (intro ilog2_less) auto
  have "\<bar>x\<bar> < 2 powi emax binary32" using ax by (simp add: binary32_def)
  then obtain r where r: "rnd binary32 x = Finite r \<or> rnd binary32 x = NegZero \<and> r = 0"
      "\<bar>r - x\<bar> \<le> ulp binary32 x / 2"
    using rnd_error [of x binary32] x0 by (auto simp add: binary32_def)
  have "max (ilog2 \<bar>x\<bar>) (emin binary32) - (int (prec binary32) - 1) \<le> 8"
    using e by (simp add: binary32_def)
  then have "ulp binary32 x \<le> 2 powi 8"
    unfolding ulp_def by (simp only: powi2_le)
  then have "r < 2 ^ 32 - 1" using r(2) ax by (simp add: abs_if split: if_splits)
  then show ?thesis using r(1) by (auto simp add: fp_of_int_def x_def [symmetric])
qed

lemma int32_not_quant_max:
  fixes w :: "32 word"
  shows "fp_of_int binary32 (sint w) \<noteq> Finite (2 ^ 32 - 1)"
proof -
  have "\<bar>sint w\<bar> \<le> 2 ^ 31"
    using sint_ge [of w] sint_lt [of w] by (simp add: abs_if)
  then show ?thesis by (rule int32_float_below)
qed

text \<open>
  Claim C3 says that the clamp bound is \<open>2 ^ num_bits - 1\<close> for every accepted
  \<open>num_bits\<close>, 32 included. The code computes it as \<^verbatim>\<open>(1 << num_bits) - 1\<close> on a 32-bit
  \<^verbatim>\<open>int\<close> and stores it in a \<^verbatim>\<open>float\<close>: for 32 bits the shift leaves the range of the
  type and the bound is \<open>- 1\<close>, and from 25 bits on the float nearest to
  \<open>2 ^ num_bits - 1\<close> is \<open>2 ^ num_bits\<close>. For 8 bits it is 255.
\<close>

theorem quant_max_overflow:
  "quant_max_int 32 = - 1 \<and> quant_max 32 = Finite (- 1) \<and>
   quant_max_int 26 = 2 ^ 26 - 1 \<and> quant_max 26 = Finite (2 ^ 26) \<and>
   quant_max 8 = Finite (2 ^ 8 - 1)"
  by code_simp

text \<open>Up to 24 bits the output of the quantization path is the clamp of the rounded
  quantization point to \<open>[0, 2 ^ num_bits - 1]\<close>, dequantized, in float arithmetic.\<close>

lemma forward_formula:
  assumes "is_cuda X" "scalar_type X = Float" "1 \<le> num_bits" "num_bits \<le> 24"
    and "0 \<le> zero_point" "0 \<le> quant_delay" "quant_delay = 0 \<or> quant_delay < iter"
  shows "forward X scale zero_point num_bits quant_delay iter =
     Inr (X\<lparr>elems :=
       map (\<lambda>x. fp_convert binary32
              (fmul binary64
                 (fsub binary32
                    (fminf (Finite (2 ^ nat num_bits - 1))
                       (fmaxf (Finite 0)
                          (roundf (fadd binary32 (fmul binary32 x (inv_scale scale))
                             (fp_of_int binary32 zero_point)))))
                    (fp_of_int binary32 zero_point))
                 scale))
         (elems X)\<rparr>)"
proof -
  have "quant_max num_bits = Finite (2 ^ nat num_bits - 1)"
    using quant_max_small [of num_bits] assms(3,4) by simp
  then have "forward_kernel scale zero_point num_bits =
      (\<lambda>x. fp_convert binary32
              (fmul binary64
                 (fsub binary32
                    (fminf (Finite (2 ^ nat num_bits - 1))
                       (fmaxf (Finite 0)
                          (roundf (fadd binary32 (fmul binary32 x (inv_scale scale))
                             (fp_of_int binary32 zero_point)))))
                    (fp_of_int binary32 zero_point))
                 scale))"
    by (simp add: forward_kernel_def quant_point_def quant_min_eq fun_eq_iff)
  moreover have "forward X scale zero_point num_bits quant_delay iter =
      Inr (X\<lparr>elems := map (forward_kernel scale zero_point num_bits) (elems X)\<rparr>)"
    using assms by (intro forward_active) auto
  ultimately show ?thesis by simp
qed

text \<open>
  Claim C1 gives every output element as the clamp of the rounded quantization point
  to \<open>[0, 2 ^ num_bits - 1]\<close>, dequantized. With 32 bits, scale 1 and zero point 0 the
  input \<open>2 ^ 32\<close> would give \<open>2 ^ 32 - 1\<close>, which the float subtraction rounds to
  \<open>2 ^ 32\<close>; the code returns \<open>- 1\<close>, its clamp bound.
\<close>

theorem forward_num_bits_32:
  "forward (cuda_floats [Finite 4294967296]) (Finite 1) 0 32 0 0 = Inr (cuda_floats [Finite (- 1)]) \<and>
   fp_convert binary32
     (fmul binary64
        (fsub binary32
           (fminf (Finite (2 ^ 32 - 1))
              (fmaxf (Finite 0)
                 (roundf (fadd binary32 (fmul binary32 (Finite 4294967296) (inv_scale (Finite 1)))
                    (fp_of_int binary32 0)))))
           (fp_of_int binary32 0))
        (Finite 1)) = Finite 4294967296"
  by code_simp

text \<open>No 32-bit \<^verbatim>\<open>int\<close> converts to a \<^verbatim>\<open>float\<close> that reaches \<open>3 * 2 ^ 30\<close>: with 32
  bits the mask at that quantization point is 0 whatever value the shift leaves.\<close>

lemma int32_float_le:
  assumes "\<bar>i\<bar> \<le> 2 ^ 31"
  shows "\<not> fle (Finite 3221225472) (fp_of_int binary32 i)"
proof (cases "i = 0")
  case True
  then show ?thesis by (simp add: fp_of_int_def rnd_def)
next
  case False
  define x :: rat where "x = of_int i"
  have ax: "\<bar>x\<bar> \<le> 2 ^ 31"
    unfolding x_def using assms by (metis of_int_abs of_int_le_iff of_int_numeral of_int_power)
  have x0: "x \<noteq> 0" using False by (simp add: x_def)
  have "\<bar>x\<bar> < 2 powi 32" using ax by simp
  then have e: "ilog2 \<bar>x\<bar> < 32" using x0 by (intro ilog2_less) auto
  have "\<bar>x\<bar> < 2 powi emax binary32" using ax by (simp add: binary32_def)
  then obtain r where r: "rnd binary32 x = Finite r \<or> rnd binary32 x = NegZero \<and> r = 0"
      "\<bar>r - x\<bar> \<le> ulp binary32 x / 2"
    using rnd_error [of x binary32] x0 by (auto simp add: binary32_def)
  have "max (ilog2 \<bar>x\<bar>) (emin binary32) - (int (prec binary32) - 1) \<le> 8"
    using e by (simp add: binary32_def)
  then have "ulp binary32 x \<le> 2 powi 8"
    unfolding ulp_def by (simp only: powi2_le)
  then have "r < 3221225472" using r(2) ax by (simp add: abs_if split: if_splits)
  then show ?thesis using r(1) by (auto simp add: fp_of_int_def x_def [symmetric])
qed

lemma mask_any_int32:
  fixes w :: "32 word"
  shows "float_of_bool (fle quant_min (Finite 3221225472) \<and>
           fle (Finite 3221225472) (fp_of_int binary32 (sint w))) = Finite 0"
proof -
  have "\<bar>sint w\<bar> \<le> 2 ^ 31"
    using sint_ge [of w] sint_lt [of w] by (simp add: abs_if)
  then have "\<not> fle (Finite 3221225472) (fp_of_int binary32 (sint w))"
    by (rule int32_float_le)
  then show ?thesis by (simp add: float_of_bool_def)
qed

text \<open>
  Claim C2 gives the gradient as \<open>mask * dY\<close>, where the mask is 1 exactly when the
  rounded quantization point lies in \<open>[0, 2 ^ num_bits - 1]\<close>. With 32 bits, scale 1 and
  zero point 0 the quantization points of the inputs \<open>1000\<close> and \<open>3 * 2 ^ 30\<close> lie in
  \<open>[0, 2 ^ 32 - 1]\<close>, so that the gradient would be \<open>dY = 1\<close>; the code returns 0, since
  its upper bound is not \<open>2 ^ 32 - 1\<close>. With 8 bits the code follows the claim: the mask
  of X = [-1000, 0, 1000] at zero point 128 is [0, 1, 0], and at scale 4 the inputs
  2, -2, 1000 and 1022 have the quantization points 1, -1, 250 and 256 (a tie is
  rounded away from zero, and the input is multiplied by \<open>1 / scale\<close>).
\<close>

theorem backward_num_bits_32:
  "backward (cuda_floats [Finite 1000]) (cuda_floats [Finite 1]) (Finite 1) 0 32 0 0 =
     Inr (cuda_floats [Finite 0]) \<and>
   fmul binary32
     (if fle (Finite 0)
           (roundf (fadd binary32 (fmul binary32 (Finite 1000) (inv_scale (Finite 1)))
              (fp_of_int binary32 0))) \<and>
         fle (roundf (fadd binary32 (fmul binary32 (Finite 1000) (inv_scale (Finite 1)))
              (fp_of_int binary32 0)))
           (Finite (2 ^ 32 - 1))
      then Finite 1 else Finite 0)
     (Finite 1) = Finite 1 \<and>
   backward (cuda_floats [Finite 3221225472]) (cuda_floats [Finite 1]) (Finite 1) 0 32 0 0 =
     Inr (cuda_floats [Finite 0]) \<and>
   fmul binary32
     (if fle (Finite 0)
           (roundf (fadd binary32 (fmul binary32 (Finite 3221225472) (inv_scale (Finite 1)))
              (fp_of_int binary32 0))) \<and>
         fle (roundf (fadd binary32 (fmul binary32 (Finite 3221225472) (inv_scale (Finite 1)))
              (fp_of_int binary32 0)))
           (Finite (2 ^ 32 - 1))
      then Finite 1 else Finite 0)
     (Finite 1) = Finite 1 \<and>
   backward (cuda_floats [Finite (- 1000), Finite 0, Finite 1000])
       (cuda_floats [Finite 1, Finite 1, Finite 1]) (Finite 1) 128 8 0 0 =
     Inr (cuda_floats [Finite 0, Finite 1, Finite 0]) \<and>
   backward (cuda_floats [Finite 2, Finite (- 2), Finite 1000, Finite 1022])
       (cuda_floats [Finite 5, Finite 5, Finite 5, Finite 5]) (Finite 4) 0 8 0 0 =
     Inr (cuda_floats [Finite 5, Finite 0, Finite 5, Finite 0])"
  by code_simp

text \<open>Up to 24 bits every output element of the quantization path, whatever the input
  element, lies between the dequantizations of \<open>0\<close> and of \<open>2 ^ num_bits - 1\<close>.\<close>

lemma forward_kernel_dequantize:
  "forward_kernel scale zero_point num_bits input_val =
     dequantize scale zero_point
       (fminf (quant_max num_bits) (fmaxf quant_min (quant_point scale zero_point input_val)))"
  by (simp add: forward_kernel_def dequantize_def)

lemma fle_NegZero_right: "fle a NegZero = fle a (Finite 0)"
  by (cases a) auto

lemma fle_NegZero_left: "fle NegZero b = fle (Finite 0) b"
  by (cases b) auto

lemma lift_mono:
  assumes h: "\<And>r. h (Finite r) = rnd f (g r)" "h NegZero = NegZero" "h PInf = PInf" "h NInf = NInf"
    and g: "\<And>r s. r \<le> s \<Longrightarrow> g r \<le> g s" "g 0 = 0"
    and a: "a \<noteq> NaN" "b \<noteq> NaN" "fle a b"
    and p: "1 \<le> prec f"
  shows "fle (h a) (h b) \<and> h a \<noteq> NaN \<and> h b \<noteq> NaN"
proof -
  have nn: "h c \<noteq> NaN" if "c \<noteq> NaN" for c
    using that by (cases c) (simp_all add: h)
  have "fle (h a) (h b)"
  proof (cases a)
    case A: (Finite r)
    show ?thesis
    proof (cases b)
      case (Finite s)
      then have "g r \<le> g s" using a(3) A by (intro g(1)) simp
      then show ?thesis unfolding A Finite h using p by (intro rnd_mono)
    next
      case NegZero
      then have "g r \<le> g 0" using a(3) A by (intro g(1)) simp
      then have "fle (rnd f (g r)) (Finite 0)" unfolding g(2) by (rule rnd_nonpos)
      then show ?thesis by (simp add: A NegZero h fle_NegZero_right)
    next
      case PInf
      then show ?thesis by (simp add: A h fle_PInf)
    next
      case NInf
      then show ?thesis using a(3) A by simp
    next
      case NaN
      then show ?thesis using a(2) by simp
    qed
  next
    case A: NegZero
    show ?thesis
    proof (cases b)
      case (Finite s)
      then have "g 0 \<le> g s" using a(3) A by (intro g(1)) simp
      then have "fle (Finite 0) (rnd f (g s))" unfolding g(2) by (rule rnd_nonneg)
      then show ?thesis by (simp add: A Finite h fle_NegZero_left)
    next
      case NegZero
      then show ?thesis by (simp add: A h)
    next
      case PInf
      then show ?thesis by (simp add: A h)
    next
      case NInf
      then show ?thesis using a(3) A by simp
    next
      case NaN
      then show ?thesis using a(2) by simp
    qed
  next
    case A: PInf
    then show ?thesis using a(2,3) by (cases b) (simp_all add: h)
  next
    case A: NInf
    then show ?thesis using a(2) nn [of b] by (simp add: h fle_NInf)
  next
    case NaN
    then show ?thesis using a(1) by simp
  qed
  then show ?thesis using nn a(1,2) by simp
qed

lemma rnd_0: "rnd f 0 = Finite 0"
  by (simp add: rnd_def)

lemma fsub_finite: "fsub f (Finite v) (Finite z) = rnd f (v - z)"
  by (cases "z = 0"; cases "v - z = 0") (simp_all add: fsub_def fadd_def is_inf_def rnd_0)

lemma fmul_scale:
  assumes "0 < \<sigma>"
  shows "fmul f (Finite r) (Finite \<sigma>) = rnd f (r * \<sigma>)" "fmul f NegZero (Finite \<sigma>) = NegZero"
    "fmul f PInf (Finite \<sigma>) = PInf" "fmul f NInf (Finite \<sigma>) = NInf"
proof -
  have n: "\<not> \<sigma> < 0" "\<sigma> \<noteq> 0" using assms by simp_all
  show "fmul f (Finite r) (Finite \<sigma>) = rnd f (r * \<sigma>)"
    by (cases "r = 0") (simp_all add: n fmul_def is_inf_def is_zero_def signed_zero_def rnd_0)
  show "fmul f NegZero (Finite \<sigma>) = NegZero" "fmul f PInf (Finite \<sigma>) = PInf"
    "fmul f NInf (Finite \<sigma>) = NInf"
    by (simp_all add: n fmul_def is_inf_def is_zero_def signed_zero_def signed_inf_def)
qed

lemma dequantize_mono:
  assumes s: "0 < \<sigma>" and z: "fp_of_int binary32 zero_point = Finite z" and v: "v \<le> w"
  shows "fle (dequantize (Finite \<sigma>) zero_point (Finite v))
           (dequantize (Finite \<sigma>) zero_point (Finite w))"
proof -
  have p: "1 \<le> prec binary32" "1 \<le> prec binary64" by (simp_all add: binary32_def binary64_def)
  have 1: "fle (rnd binary32 (v - z)) (rnd binary32 (w - z))"
    using v p(1) by (intro rnd_mono) auto
  have 2: "fle (fmul binary64 (rnd binary32 (v - z)) (Finite \<sigma>))
             (fmul binary64 (rnd binary32 (w - z)) (Finite \<sigma>)) \<and>
           fmul binary64 (rnd binary32 (v - z)) (Finite \<sigma>) \<noteq> NaN \<and>
           fmul binary64 (rnd binary32 (w - z)) (Finite \<sigma>) \<noteq> NaN"
    using 1 p(2) s
    by (intro lift_mono [where g = "\<lambda>r. r * \<sigma>"]) (simp_all add: fmul_scale mult_right_mono)
  have 3: "fle (fp_convert binary32 (fmul binary64 (rnd binary32 (v - z)) (Finite \<sigma>)))
             (fp_convert binary32 (fmul binary64 (rnd binary32 (w - z)) (Finite \<sigma>)))"
    using 2 p(1) lift_mono [where h = "fp_convert binary32" and g = "\<lambda>r. r" and f = binary32,
        of "fmul binary64 (rnd binary32 (v - z)) (Finite \<sigma>)"
           "fmul binary64 (rnd binary32 (w - z)) (Finite \<sigma>)"]
    by simp
  then show ?thesis by (simp add: dequantize_def z fsub_finite)
qed

lemma clamp_range:
  assumes "0 \<le> Q"
  shows "\<exists>c. fminf (Finite Q) (fmaxf (Finite 0) q) = Finite c \<and> 0 \<le> c \<and> c \<le> Q"
  using assms by (cases q) (auto simp add: fminf_def fmaxf_def flt_def)

lemma zero_point_float:
  assumes "0 \<le> zero_point" "zero_point < 2 ^ 63"
  shows "\<exists>z. fp_of_int binary32 zero_point = Finite z"
proof (cases "zero_point = 0")
  case True
  then show ?thesis by (simp add: fp_of_int_def rnd_def)
next
  case False
  define x :: rat where "x = of_int zero_point"
  have x: "1 \<le> x" "x < 2 ^ 63"
    using assms False unfolding x_def
    by (simp, metis of_int_less_iff of_int_numeral of_int_power)
  have "(2::rat) powi emin binary32 \<le> 2 powi 0"
    by (simp only: powi2_le) (simp add: binary32_def)
  then have lo: "2 powi emin binary32 \<le> \<bar>x\<bar>" using x(1) by simp
  have "\<bar>x\<bar> < 2 powi 63" using x by simp
  also have "(2::rat) powi 63 \<le> 2 powi emax binary32"
    by (simp only: powi2_le) (simp add: binary32_def)
  finally have "\<exists>r. rnd binary32 x = Finite r \<and> \<bar>r - x\<bar> \<le> \<bar>x\<bar> / 2 ^ prec binary32"
    using lo by (intro rnd_normal) (simp_all add: binary32_def)
  then show ?thesis by (auto simp add: fp_of_int_def x_def)
qed

lemma forward_kernel_in_range:
  assumes "0 < \<sigma>" "1 \<le> num_bits" "num_bits \<le> 24" "0 \<le> zero_point" "zero_point < 2 ^ 63"
  shows "fle (dequantize (Finite \<sigma>) zero_point (Finite 0))
           (forward_kernel (Finite \<sigma>) zero_point num_bits x) \<and>
         fle (forward_kernel (Finite \<sigma>) zero_point num_bits x)
           (dequantize (Finite \<sigma>) zero_point (Finite (2 ^ nat num_bits - 1)))"
proof -
  obtain z where z: "fp_of_int binary32 zero_point = Finite z"
    using zero_point_float [OF assms(4,5)] by blast
  have qm: "quant_max num_bits = Finite (2 ^ nat num_bits - 1)"
    using quant_max_small [of num_bits] assms(2,3) by simp
  have "(0::rat) \<le> 2 ^ nat num_bits - 1" by simp
  then obtain c where c: "fminf (Finite (2 ^ nat num_bits - 1))
      (fmaxf (Finite 0) (quant_point (Finite \<sigma>) zero_point x)) = Finite c"
      "0 \<le> c" "c \<le> 2 ^ nat num_bits - 1"
    using clamp_range by blast
  have k: "forward_kernel (Finite \<sigma>) zero_point num_bits x =
      dequantize (Finite \<sigma>) zero_point (Finite c)"
    by (simp add: forward_kernel_dequantize qm quant_min_eq c(1))
  show ?thesis unfolding k using assms(1) z c(2,3) by (intro conjI dequantize_mono)
qed

text \<open>
  Claim C7 bounds every output element by the dequantization of \<open>2 ^ num_bits - 1\<close>,
  \<open>(2 ^ num_bits - 1 - zero_point) * scale\<close>. With 26 bits, scale 1 and zero point 2 the
  input \<open>2 ^ 26\<close> is returned unchanged: the clamp bound of the code is \<open>2 ^ 26\<close>, and
  \<open>2 ^ 26 - 2\<close> rounds to \<open>2 ^ 26\<close>. The bound of the claim is \<open>2 ^ 26 - 3 = 67108861\<close>,
  and \<open>67108860\<close> when the subtraction is carried out in float arithmetic as in
  \<open>forward_kernel_in_range\<close>; the output is above both.
\<close>

theorem forward_exceeds_range:
  "forward (cuda_floats [Finite 67108864]) (Finite 1) 2 26 0 0 = Inr (cuda_floats [Finite 67108864]) \<and>
   dequantize (Finite 1) 2 (Finite (2 ^ 26 - 1)) = Finite 67108860 \<and>
   \<not> fle (Finite 67108864) (dequantize (Finite 1) 2 (Finite (2 ^ 26 - 1))) \<and>
   (2 ^ 26 - 1 - 2) * 1 < (67108864 :: rat)"
  by code_simp

section \<open>Quantizing twice\<close>











end
